theory Spec2Isabelle
  imports Main "HOL-Library.Word"
begin

section \<open>The FIFO store of \<^verbatim>\<open>fifo/fifo.go\<close>\<close>

subsection \<open>Data\<close>

text \<open>
  Go's \<^verbatim>\<open>int\<close> is a 64-bit two's complement integer on the usual targets: addition and
  subtraction wrap, comparison is signed (\<open><s\<close>).
\<close>

type_synonym go_int = "64 word"

text \<open>
  A value of type \<^verbatim>\<open>interface{}\<close> is either \<^verbatim>\<open>nil\<close> or holds a dynamic value.
\<close>

datatype 'v iface = GoNil | Iface 'v

text \<open>
  \<^verbatim>\<open>type entry struct { key string; value interface{} }\<close>
\<close>

record 'v entry =
  key :: string
  val :: "'v iface"

text \<open>
  A \<^verbatim>\<open>*list.Element\<close> is an address. Every element of the list holds a pointer to an
  entry of its own (\<^verbatim>\<open>e.Value.(*entry)\<close>), so the heap maps the address of an element to
  that entry. A nil element pointer is \<open>None\<close> of \<open>element option\<close>.
\<close>

type_synonym element = nat

text \<open>
  One invocation of the \<^verbatim>\<open>onEvicted\<close> callback: the two arguments it received, the
  element whose removal caused it, and the list, the index, the entries and \<^verbatim>\<open>usedBytes\<close>
  of the store at the moment of the call.
\<close>

record 'v call =
  arg_key :: string
  arg_value :: "'v iface"
  removed :: element
  seen_ll :: "element list"
  seen_cache :: "string \<rightharpoonup> element"
  seen_elems :: "element \<Rightarrow> 'v entry"
  seen_usedBytes :: go_int

text \<open>
  \<^verbatim>\<open>type fifo struct { maxBytes int; onEvicted func(...); usedBytes int;
                      ll *list.List; cache map[string]*list.Element }\<close>

  \<^item> \<open>onEvicted\<close> tells whether the callback is non-nil; what the callback does is outside
    the store, so each invocation is recorded in \<open>calls\<close>, oldest first.
  \<^item> \<open>ll\<close> is the list from front to back, as addresses of its elements.
  \<^item> \<open>elems\<close> is the heap of entries and \<open>nextElem\<close> the next address the allocator hands
    out; memory that was never written holds the zero value.
\<close>

record 'v fifo =
  maxBytes :: go_int
  onEvicted :: bool
  usedBytes :: go_int
  ll :: "element list"
  cache :: "string \<rightharpoonup> element"
  elems :: "element \<Rightarrow> 'v entry"
  nextElem :: element
  calls :: "'v call list"

subsection \<open>The operations of \<^verbatim>\<open>container/list\<close> that the store uses\<close>

text \<open>\<^verbatim>\<open>l.PushBack(v)\<close>: a new element holding \<open>v\<close> goes to the back; it is returned.\<close>

definition PushBack :: "'v entry \<Rightarrow> 'v fifo \<Rightarrow> element \<times> 'v fifo" where
  "PushBack en f =
     (let e = nextElem f
      in (e, f\<lparr>ll := ll f @ [e], elems := (elems f)(e := en), nextElem := Suc e\<rparr>))"

text \<open>
  \<^verbatim>\<open>l.MoveToBack(e)\<close>: nothing happens when \<open>e\<close> is not an element of the list or is
  already its last element.
\<close>

definition MoveToBack :: "element \<Rightarrow> element list \<Rightarrow> element list" where
  "MoveToBack e l = (if e \<notin> set l \<or> last l = e then l else remove1 e l @ [e])"

text \<open>\<^verbatim>\<open>l.Remove(e)\<close>: removes \<open>e\<close> if it is an element of the list.\<close>

definition Remove :: "element \<Rightarrow> element list \<Rightarrow> element list" where
  "Remove e l = (if e \<in> set l then remove1 e l else l)"

text \<open>\<^verbatim>\<open>l.Front()\<close>: the first element, or nil when the list is empty.\<close>

definition Front :: "element list \<Rightarrow> element option" where
  "Front l = (case l of [] \<Rightarrow> None | e # _ \<Rightarrow> Some e)"

subsection \<open>The store\<close>

text \<open>
  \<^verbatim>\<open>cache.CalcLen\<close> belongs to a package whose source is not part of the files at hand. It
  is a parameter \<open>calcLen\<close> of every operation that calls it: any function from a value to
  its size in bytes.
\<close>

definition entry_Len :: "('v iface \<Rightarrow> go_int) \<Rightarrow> 'v entry \<Rightarrow> go_int" where
  "entry_Len calcLen en = calcLen (val en)"

definition New :: "go_int \<Rightarrow> bool \<Rightarrow> 'v fifo" where
  "New mb cb =
     \<lparr>maxBytes = mb, onEvicted = cb, usedBytes = 0, ll = [], cache = Map.empty,
      elems = (\<lambda>_. \<lparr>key = [], val = GoNil\<rparr>), nextElem = 0, calls = []\<rparr>"

definition removeElement :: "('v iface \<Rightarrow> go_int) \<Rightarrow> element option \<Rightarrow> 'v fifo \<Rightarrow> 'v fifo" where
  "removeElement calcLen eo f =
     (case eo of
        None \<Rightarrow> f
      | Some e \<Rightarrow>
          (let f1 = f\<lparr>ll := Remove e (ll f)\<rparr>;
               en = elems f1 e;
               f2 = f1\<lparr>usedBytes := usedBytes f1 - entry_Len calcLen en\<rparr>;
               f3 = f2\<lparr>cache := (cache f2)(key en := None)\<rparr>
           in if onEvicted f3
              then f3\<lparr>calls := calls f3 @
                     [\<lparr>arg_key = key en, arg_value = val en, removed = e, seen_ll = ll f3,
                       seen_cache = cache f3, seen_elems = elems f3,
                       seen_usedBytes = usedBytes f3\<rparr>]\<rparr>
              else f3))"

definition DelOldest :: "('v iface \<Rightarrow> go_int) \<Rightarrow> 'v fifo \<Rightarrow> 'v fifo" where
  "DelOldest calcLen f = removeElement calcLen (Front (ll f)) f"

definition Del :: "('v iface \<Rightarrow> go_int) \<Rightarrow> string \<Rightarrow> 'v fifo \<Rightarrow> 'v fifo" where
  "Del calcLen k f =
     (case cache f k of
        Some e \<Rightarrow> removeElement calcLen (Some e) f
      | None \<Rightarrow> f)"

definition Set :: "('v iface \<Rightarrow> go_int) \<Rightarrow> string \<Rightarrow> 'v iface \<Rightarrow> 'v fifo \<Rightarrow> 'v fifo" where
  "Set calcLen k v f =
     (case cache f k of
        Some e \<Rightarrow>
          (let f1 = f\<lparr>ll := MoveToBack e (ll f)\<rparr>;
               en = elems f1 e;
               f2 = f1\<lparr>usedBytes := usedBytes f1 - calcLen (val en) + calcLen v\<rparr>
           in f2\<lparr>elems := (elems f2)(e := en\<lparr>val := v\<rparr>)\<rparr>)
      | None \<Rightarrow>
          (let en = \<lparr>key = k, val = v\<rparr>;
               (e, f1) = PushBack en f;
               f2 = f1\<lparr>cache := (cache f1)(k \<mapsto> e)\<rparr>;
               f3 = f2\<lparr>usedBytes := usedBytes f2 + entry_Len calcLen en\<rparr>
           in if 0 <s maxBytes f3 \<and> maxBytes f3 <s usedBytes f3
              then DelOldest calcLen f3
              else f3))"

text \<open>
  \<^verbatim>\<open>Get\<close> and \<^verbatim>\<open>Len\<close> have a pointer receiver like the other methods, so they return the
  store next to their result.
\<close>

definition Get :: "string \<Rightarrow> 'v fifo \<Rightarrow> 'v iface \<times> 'v fifo" where
  "Get k f =
     (case cache f k of
        Some e \<Rightarrow> (val (elems f e), f)
      | None \<Rightarrow> (GoNil, f))"

definition Len :: "'v fifo \<Rightarrow> nat \<times> 'v fifo" where
  "Len f = (length (ll f), f)"

subsection \<open>Sequences of calls\<close>

datatype 'v op =
  OpSet string "'v iface"
| OpGet string
| OpDel string
| OpDelOldest
| OpLen

fun exec :: "('v iface \<Rightarrow> go_int) \<Rightarrow> 'v op \<Rightarrow> 'v fifo \<Rightarrow> 'v fifo" where
  "exec calcLen (OpSet k v) f = Set calcLen k v f"
| "exec calcLen (OpGet k) f = snd (Get k f)"
| "exec calcLen (OpDel k) f = Del calcLen k f"
| "exec calcLen OpDelOldest f = DelOldest calcLen f"
| "exec calcLen OpLen f = snd (Len f)"

fun run :: "('v iface \<Rightarrow> go_int) \<Rightarrow> 'v op list \<Rightarrow> 'v fifo \<Rightarrow> 'v fifo" where
  "run calcLen [] f = f"
| "run calcLen (x # xs) f = run calcLen xs (exec calcLen x f)"

text \<open>
  A byte-size convention to run the store on concrete values: a string counts its bytes,
  nil counts nothing.
\<close>

fun strLen :: "string iface \<Rightarrow> go_int" where
  "strLen GoNil = 0"
| "strLen (Iface s) = of_nat (length s)"

subsection \<open>Invariants\<close>

text \<open>The bytes of the values of the entries in the list.\<close>

definition list_bytes :: "('v iface \<Rightarrow> go_int) \<Rightarrow> 'v fifo \<Rightarrow> go_int" where
  "list_bytes calcLen f = sum_list (map (\<lambda>e. calcLen (val (elems f e))) (ll f))"

text \<open>The bytes of the values of the entries that the key index points to.\<close>

definition indexed_bytes :: "('v iface \<Rightarrow> go_int) \<Rightarrow> 'v fifo \<Rightarrow> go_int" where
  "indexed_bytes calcLen f = (\<Sum>k\<in>dom (cache f). calcLen (val (elems f (the (cache f k)))))"

text \<open>
  The list and the key index agree: no element occurs twice in the list, every element of
  the list was allocated and is the one the index holds for its key, and the index holds
  no other key.
\<close>

definition consistent :: "'v fifo \<Rightarrow> bool" where
  "consistent f \<longleftrightarrow>
     distinct (ll f) \<and>
     (\<forall>e\<in>set (ll f). e < nextElem f \<and> cache f (key (elems f e)) = Some e) \<and>
     dom (cache f) \<subseteq> (\<lambda>e. key (elems f e)) ` set (ll f)"

text \<open>Consistency together with exact accounting of the bytes.\<close>

definition accounted :: "('v iface \<Rightarrow> go_int) \<Rightarrow> 'v fifo \<Rightarrow> bool" where
  "accounted calcLen f \<longleftrightarrow> consistent f \<and> usedBytes f = list_bytes calcLen f"

text \<open>
  The store between the increment of \<^verbatim>\<open>usedBytes\<close> and the test of the capacity on the
  path of \<^verbatim>\<open>Set\<close> for a key that is not in the index.
\<close>

definition pushed :: "('v iface \<Rightarrow> go_int) \<Rightarrow> string \<Rightarrow> 'v iface \<Rightarrow> 'v fifo \<Rightarrow> 'v fifo" where
  "pushed calcLen k v f =
     f\<lparr>ll := ll f @ [nextElem f], elems := (elems f)(nextElem f := \<lparr>key = k, val = v\<rparr>),
       nextElem := Suc (nextElem f), cache := (cache f)(k \<mapsto> nextElem f),
       usedBytes := usedBytes f + calcLen v\<rparr>"



section \<open>Properties\<close>

subsection \<open>Fields after each operation\<close>

lemma consistent_cacheD:
  assumes "consistent f" "cache f k = Some e"
  shows "e \<in> set (ll f)" "key (elems f e) = k" "e < nextElem f"
proof -
  from assms have "k \<in> (\<lambda>e. key (elems f e)) ` set (ll f)"
    unfolding consistent_def by blast
  then obtain e' where e': "e' \<in> set (ll f)" "k = key (elems f e')" by blast
  with assms(1) have "cache f k = Some e'" "e' < nextElem f" unfolding consistent_def by auto
  with assms(2) have "e' = e" by simp
  with e' \<open>e' < nextElem f\<close> show "e \<in> set (ll f)" "key (elems f e) = k" "e < nextElem f" by auto
qed

lemma consistent_key_inj:
  assumes "consistent f" "a \<in> set (ll f)" "b \<in> set (ll f)" "key (elems f a) = key (elems f b)"
  shows "a = b"
  using assms unfolding consistent_def by (metis option.inject)

lemma consistent_New: "consistent (New mb cb)"
  by (simp add: consistent_def New_def)

lemma sum_list_remove1_word:
  fixes g :: "'a \<Rightarrow> go_int"
  shows "e \<in> set l \<Longrightarrow> sum_list (map g (remove1 e l)) = sum_list (map g l) - g e"
  by (induction l) auto

lemma removeElement_fields:
  "ll (removeElement calcLen (Some e) f) = Remove e (ll f)"
  "usedBytes (removeElement calcLen (Some e) f) = usedBytes f - calcLen (val (elems f e))"
  "cache (removeElement calcLen (Some e) f) = (cache f)(key (elems f e) := None)"
  "elems (removeElement calcLen (Some e) f) = elems f"
  "nextElem (removeElement calcLen (Some e) f) = nextElem f"
  "maxBytes (removeElement calcLen (Some e) f) = maxBytes f"
  "onEvicted (removeElement calcLen (Some e) f) = onEvicted f"
  by (simp_all add: removeElement_def entry_Len_def Let_def)

lemma removeElement_calls:
  "calls (removeElement calcLen (Some e) f) =
     (if onEvicted f
      then calls f @ [\<lparr>arg_key = key (elems f e), arg_value = val (elems f e), removed = e,
                       seen_ll = Remove e (ll f),
                       seen_cache = (cache f)(key (elems f e) := None),
                       seen_elems = elems f,
                       seen_usedBytes = usedBytes f - calcLen (val (elems f e))\<rparr>]
      else calls f)"
  by (simp add: removeElement_def entry_Len_def Let_def)

lemma consistent_removeElement:
  assumes "consistent f" "e \<in> set (ll f)"
  shows "consistent (removeElement calcLen (Some e) f)"
proof -
  let ?f = "removeElement calcLen (Some e) f"
  have d: "distinct (ll f)" using assms(1) by (simp add: consistent_def)
  have l: "ll ?f = remove1 e (ll f)" using assms(2) by (simp add: removeElement_fields Remove_def)
  have s: "set (ll ?f) = set (ll f) - {e}" using d l by simp
  have 1: "distinct (ll ?f)" using d l by simp
  have 2: "e' < nextElem ?f \<and> cache ?f (key (elems ?f e')) = Some e'" if "e' \<in> set (ll ?f)" for e'
  proof -
    from that s have m: "e' \<in> set (ll f)" "e' \<noteq> e" by auto
    then have "key (elems f e') \<noteq> key (elems f e)"
      using consistent_key_inj[OF assms(1) m(1) assms(2)] by blast
    moreover have "e' < nextElem f" "cache f (key (elems f e')) = Some e'"
      using assms(1) m(1) by (auto simp: consistent_def)
    ultimately show ?thesis by (simp add: removeElement_fields)
  qed
  have 3: "dom (cache ?f) \<subseteq> (\<lambda>a. key (elems ?f a)) ` set (ll ?f)"
  proof
    fix k assume "k \<in> dom (cache ?f)"
    then obtain a where a: "cache f k = Some a" "k \<noteq> key (elems f e)"
      by (auto simp: removeElement_fields split: if_splits)
    from consistent_cacheD[OF assms(1) a(1)] a(2) have "a \<in> set (ll f)" "key (elems f a) = k" "a \<noteq> e"
      by auto
    then show "k \<in> (\<lambda>a. key (elems ?f a)) ` set (ll ?f)"
      using s by (auto simp: removeElement_fields)
  qed
  show ?thesis unfolding consistent_def using 1 2 3 by blast
qed

lemma list_bytes_removeElement:
  assumes "distinct (ll f)" "e \<in> set (ll f)"
  shows "list_bytes calcLen (removeElement calcLen (Some e) f) = list_bytes calcLen f - calcLen (val (elems f e))"
  using assms by (simp add: list_bytes_def removeElement_fields Remove_def sum_list_remove1_word)

lemma Set_update_fields:
  assumes "cache f k = Some e"
  shows "ll (Set calcLen k v f) = MoveToBack e (ll f)"
    "usedBytes (Set calcLen k v f) = usedBytes f - calcLen (val (elems f e)) + calcLen v"
    "elems (Set calcLen k v f) = (elems f)(e := (elems f e)\<lparr>val := v\<rparr>)"
    "cache (Set calcLen k v f) = cache f"
    "calls (Set calcLen k v f) = calls f"
    "nextElem (Set calcLen k v f) = nextElem f"
    "maxBytes (Set calcLen k v f) = maxBytes f"
    "onEvicted (Set calcLen k v f) = onEvicted f"
  using assms by (simp_all add: Set_def Let_def)

lemma Set_new:
  assumes "cache f k = None"
  shows "Set calcLen k v f =
     (if 0 <s maxBytes f \<and> maxBytes f <s usedBytes f + calcLen v
      then DelOldest calcLen (pushed calcLen k v f) else pushed calcLen k v f)"
  using assms by (simp add: Set_def Let_def PushBack_def entry_Len_def pushed_def)

lemma set_remove1_snoc: "e \<in> set l \<Longrightarrow> insert e (set (remove1 e l)) = set l"
  by (induction l) auto

lemma MoveToBack_set [simp]: "set (MoveToBack e l) = set l"
  by (simp add: MoveToBack_def set_remove1_snoc)

lemma MoveToBack_length [simp]: "length (MoveToBack e l) = length l"
  by (auto simp: MoveToBack_def length_remove1) (metis Suc_pred length_pos_if_in_set)

lemma MoveToBack_distinct [simp]: "distinct l \<Longrightarrow> distinct (MoveToBack e l)"
  by (auto simp: MoveToBack_def)

lemma MoveToBack_eq: "distinct l \<Longrightarrow> e \<in> set l \<Longrightarrow> MoveToBack e l = remove1 e l @ [e]"
proof (induction l rule: rev_induct)
  case Nil then show ?case by simp
next
  case (snoc x xs)
  show ?case
  proof (cases "x = e")
    case True
    with snoc.prems have "e \<notin> set xs" by simp
    then have "remove1 e (xs @ [e]) = xs" by (simp add: remove1_append remove1_idem)
    with True show ?thesis by (simp add: MoveToBack_def)
  next
    case False
    then show ?thesis using snoc.prems by (simp add: MoveToBack_def)
  qed
qed

lemma consistent_Set_update:
  assumes "consistent f" "cache f k = Some e"
  shows "consistent (Set calcLen k v f)"
proof -
  note c = consistent_cacheD[OF assms]
  have "key (((elems f)(e := (elems f e)\<lparr>val := v\<rparr>)) a) = key (elems f a)" for a
    by simp
  then show ?thesis
    using assms(1) unfolding consistent_def Set_update_fields[OF assms(2)]
    by simp
qed

lemma consistent_pushed:
  assumes "consistent f" "cache f k = None"
  shows "consistent (pushed calcLen k v f)"
proof -
  let ?n = "nextElem f"
  let ?f = "pushed calcLen k v f"
  have fresh: "?n \<notin> set (ll f)" using assms(1) unfolding consistent_def by auto
  have 1: "distinct (ll ?f)" using assms(1) fresh by (simp add: pushed_def consistent_def)
  have 2: "a < nextElem ?f \<and> cache ?f (key (elems ?f a)) = Some a" if "a \<in> set (ll ?f)" for a
  proof (cases "a = ?n")
    case True then show ?thesis by (simp add: pushed_def)
  next
    case False
    with that have m: "a \<in> set (ll f)" by (simp add: pushed_def)
    with assms(1) have "a < ?n" "cache f (key (elems f a)) = Some a" by (auto simp: consistent_def)
    moreover from this assms(2) have "key (elems f a) \<noteq> k" by auto
    ultimately show ?thesis using False by (simp add: pushed_def)
  qed
  have 3: "dom (cache ?f) \<subseteq> (\<lambda>a. key (elems ?f a)) ` set (ll ?f)"
  proof
    fix x assume x: "x \<in> dom (cache ?f)"
    show "x \<in> (\<lambda>a. key (elems ?f a)) ` set (ll ?f)"
    proof (cases "x = k")
      case True
      have "key (elems ?f ?n) = k" "?n \<in> set (ll ?f)" by (simp_all add: pushed_def)
      with True show ?thesis by (metis imageI)
    next
      case False
      with x obtain a where a: "cache f x = Some a" by (auto simp: pushed_def)
      note c = consistent_cacheD[OF assms(1) a]
      with fresh have "a \<noteq> ?n" by auto
      with c have "key (elems ?f a) = x" "a \<in> set (ll ?f)" by (simp_all add: pushed_def)
      then show ?thesis by (metis imageI)
    qed
  qed
  show ?thesis unfolding consistent_def using 1 2 3 by blast
qed

lemma Front_in: "Front l = Some e \<Longrightarrow> e \<in> set l"
  by (auto simp: Front_def split: list.splits)

lemma removeElement_None [simp]: "removeElement calcLen None f = f"
  by (simp add: removeElement_def)

lemma consistent_DelOldest: "consistent f \<Longrightarrow> consistent (DelOldest calcLen f)"
  unfolding DelOldest_def
  by (cases "Front (ll f)") (auto intro: consistent_removeElement Front_in)

lemma consistent_Del: "consistent f \<Longrightarrow> consistent (Del calcLen k f)"
  unfolding Del_def
  by (auto split: option.splits intro: consistent_removeElement consistent_cacheD)

lemma consistent_Set: "consistent f \<Longrightarrow> consistent (Set calcLen k v f)"
  by (cases "cache f k")
    (auto simp: Set_new intro: consistent_Set_update consistent_pushed consistent_DelOldest)

lemma consistent_exec: "consistent f \<Longrightarrow> consistent (exec calcLen x f)"
  by (cases x) (simp_all add: consistent_Set consistent_Del consistent_DelOldest Get_def Len_def split: option.splits)

lemma consistent_run: "consistent f \<Longrightarrow> consistent (run calcLen xs f)"
  by (induction xs arbitrary: f) (simp_all add: consistent_exec)

lemma consistent_reachable: "consistent (run calcLen xs (New mb cb))"
  by (rule consistent_run[OF consistent_New])

lemma consistent_dom:
  assumes "consistent f"
  shows "dom (cache f) = (\<lambda>e. key (elems f e)) ` set (ll f)"
proof
  show "dom (cache f) \<subseteq> (\<lambda>e. key (elems f e)) ` set (ll f)"
    using assms by (simp add: consistent_def)
  show "(\<lambda>e. key (elems f e)) ` set (ll f) \<subseteq> dom (cache f)"
    using assms unfolding consistent_def by auto
qed

lemma indexed_bytes_list_bytes:
  assumes "consistent f"
  shows "indexed_bytes calcLen f = list_bytes calcLen f"
proof -
  let ?h = "\<lambda>e. key (elems f e)"
  let ?g = "\<lambda>e. calcLen (val (elems f e))"
  have inj: "inj_on ?h (set (ll f))"
    by (rule inj_onI) (rule consistent_key_inj[OF assms])
  have "indexed_bytes calcLen f = (\<Sum>k\<in>?h ` set (ll f). ?g (the (cache f k)))"
    by (simp add: indexed_bytes_def consistent_dom[OF assms])
  also have "\<dots> = (\<Sum>e\<in>set (ll f). ?g (the (cache f (?h e))))"
    by (simp add: sum.reindex[OF inj])
  also have "\<dots> = (\<Sum>e\<in>set (ll f). ?g e)"
    by (rule sum.cong) (use assms in \<open>auto simp: consistent_def\<close>)
  also have "\<dots> = list_bytes calcLen f"
    using assms by (simp add: list_bytes_def consistent_def sum_list_distinct_conv_sum_set)
  finally show ?thesis .
qed

lemma sum_list_map_eq:
  fixes g :: "'a \<Rightarrow> go_int"
  shows "(\<And>a. a \<in> set l \<Longrightarrow> g' a = g a) \<Longrightarrow> sum_list (map g' l) = sum_list (map g l)"
  by (induction l) auto

lemma list_bytes_Set_update:
  assumes "consistent f" "cache f k = Some e"
  shows "list_bytes calcLen (Set calcLen k v f) =
         list_bytes calcLen f - calcLen (val (elems f e)) + calcLen v"
proof -
  let ?g = "\<lambda>a. calcLen (val (elems f a))"
  let ?g' = "\<lambda>a. calcLen (val (elems (Set calcLen k v f) a))"
  have d: "distinct (ll f)" using assms(1) by (simp add: consistent_def)
  have m: "e \<in> set (ll f)" by (rule consistent_cacheD[OF assms])
  have "sum_list (map ?g' (remove1 e (ll f))) = sum_list (map ?g (remove1 e (ll f)))"
    using d by (intro sum_list_map_eq) (auto simp: Set_update_fields[OF assms(2)])
  moreover have "?g' e = calcLen v"
    by (simp add: Set_update_fields[OF assms(2)])
  ultimately have "list_bytes calcLen (Set calcLen k v f) =
      sum_list (map ?g (remove1 e (ll f))) + calcLen v"
    by (simp add: list_bytes_def Set_update_fields(1)[OF assms(2)] MoveToBack_eq[OF d m])
  then show ?thesis
    by (simp add: sum_list_remove1_word[OF m] list_bytes_def)
qed

lemma list_bytes_pushed:
  assumes "consistent f"
  shows "list_bytes calcLen (pushed calcLen k v f) = list_bytes calcLen f + calcLen v"
proof -
  let ?g = "\<lambda>a. calcLen (val (elems f a))"
  let ?g' = "\<lambda>a. calcLen (val (elems (pushed calcLen k v f) a))"
  have n: "nextElem f \<notin> set (ll f)" using assms unfolding consistent_def by auto
  have "sum_list (map ?g' (ll f)) = sum_list (map ?g (ll f))"
    using n by (intro sum_list_map_eq) (auto simp: pushed_def)
  moreover have "?g' (nextElem f) = calcLen v" by (simp add: pushed_def)
  moreover have "ll (pushed calcLen k v f) = ll f @ [nextElem f]" by (simp add: pushed_def)
  ultimately show ?thesis by (simp add: list_bytes_def)
qed

lemma accounted_New: "accounted calcLen (New mb cb)"
  by (simp add: accounted_def consistent_New) (simp add: New_def list_bytes_def)

lemma accounted_removeElement:
  assumes "accounted calcLen f" "e \<in> set (ll f)"
  shows "accounted calcLen (removeElement calcLen (Some e) f)"
proof -
  from assms have c: "consistent f" and u: "usedBytes f = list_bytes calcLen f"
    by (simp_all add: accounted_def)
  from c have d: "distinct (ll f)" by (simp add: consistent_def)
  show ?thesis
    unfolding accounted_def
    using consistent_removeElement[OF c assms(2)] list_bytes_removeElement[OF d assms(2)] u
    by (simp add: removeElement_fields)
qed

lemma accounted_DelOldest: "accounted calcLen f \<Longrightarrow> accounted calcLen (DelOldest calcLen f)"
  unfolding DelOldest_def
  by (cases "Front (ll f)") (auto intro: accounted_removeElement Front_in)

lemma accounted_Del: "accounted calcLen f \<Longrightarrow> accounted calcLen (Del calcLen k f)"
proof (cases "cache f k")
  case None
  assume "accounted calcLen f"
  with None show ?thesis by (simp add: Del_def)
next
  case (Some e)
  assume a: "accounted calcLen f"
  then have "e \<in> set (ll f)" using Some by (auto simp: accounted_def intro: consistent_cacheD)
  with a Some show ?thesis by (simp add: Del_def accounted_removeElement)
qed

lemma accounted_pushed:
  "accounted calcLen f \<Longrightarrow> cache f k = None \<Longrightarrow> accounted calcLen (pushed calcLen k v f)"
  unfolding accounted_def
  by (simp add: consistent_pushed list_bytes_pushed) (simp add: pushed_def)

lemma accounted_Set: "accounted calcLen f \<Longrightarrow> accounted calcLen (Set calcLen k v f)"
proof (cases "cache f k")
  case None
  assume "accounted calcLen f"
  then show ?thesis
    using None by (simp add: Set_new accounted_pushed accounted_DelOldest)
next
  case (Some e)
  assume "accounted calcLen f"
  then show ?thesis
    unfolding accounted_def
    using Some by (simp add: consistent_Set_update list_bytes_Set_update Set_update_fields)
qed

lemma accounted_exec: "accounted calcLen f \<Longrightarrow> accounted calcLen (exec calcLen x f)"
  by (cases x) (simp_all add: accounted_Set accounted_Del accounted_DelOldest Get_def Len_def split: option.splits)

lemma accounted_run: "accounted calcLen f \<Longrightarrow> accounted calcLen (run calcLen xs f)"
  by (induction xs arbitrary: f) (simp_all add: accounted_exec)

lemma accounted_reachable: "accounted calcLen (run calcLen xs (New mb cb))"
  by (rule accounted_run[OF accounted_New])

subsection \<open>Evaluation and arithmetic\<close>

text \<open>The definitions to unfold when a store is run on concrete values.\<close>

lemmas fifo_eval = Set_def Del_def DelOldest_def removeElement_def PushBack_def MoveToBack_def
  Remove_def Front_def entry_Len_def New_def Get_def Len_def Let_def word_sless_alt word_sle_eq

lemma sint_add_no_overflow:
  fixes a b :: go_int
  assumes "0 \<le> sint a" "0 \<le> sint b" "sint a + sint b < 2 ^ 63"
  shows "sint (a + b) = sint a + sint b"
  using assms by (simp add: sint_word_add signed_take_bit_int_eq_self)

lemma pushed_fields:
  "ll (pushed calcLen k v f) = ll f @ [nextElem f]"
  "elems (pushed calcLen k v f) = (elems f)(nextElem f := \<lparr>key = k, val = v\<rparr>)"
  "nextElem (pushed calcLen k v f) = Suc (nextElem f)"
  "cache (pushed calcLen k v f) = (cache f)(k \<mapsto> nextElem f)"
  "usedBytes (pushed calcLen k v f) = usedBytes f + calcLen v"
  "maxBytes (pushed calcLen k v f) = maxBytes f"
  "onEvicted (pushed calcLen k v f) = onEvicted f"
  "calls (pushed calcLen k v f) = calls f"
  by (simp_all add: pushed_def)

lemma Set_new_evicts:
  assumes "cache f k = None" "0 <s maxBytes f" "maxBytes f <s usedBytes f + calcLen v"
  shows "Set calcLen k v f =
         removeElement calcLen (Some (hd (ll f @ [nextElem f]))) (pushed calcLen k v f)"
proof -
  have "Front (ll f @ [nextElem f]) = Some (hd (ll f @ [nextElem f]))"
    by (cases "ll f") (simp_all add: Front_def)
  then show ?thesis
    using assms by (simp add: Set_new DelOldest_def pushed_fields)
qed

subsection \<open>The history of the callback\<close>















subsection \<open>A stored nil\<close>

text \<open>
  In a store without a limit, a key set to nil is in the index, and \<^verbatim>\<open>Get\<close> returns for it
  what it returns for any other key, whatever \<open>calcLen\<close> is.
\<close>

lemma Get_stored_nil:
  "cache (Set calcLen k GoNil (New 0 cb)) k \<noteq> None \<and>
   (k' \<noteq> k \<longrightarrow> cache (Set calcLen k GoNil (New 0 cb)) k' = None) \<and>
   fst (Get k (Set calcLen k GoNil (New 0 cb))) = fst (Get k' (Set calcLen k GoNil (New 0 cb)))"
  by (simp add: fifo_eval)

section \<open>The claims\<close>

subsection \<open>Accounting\<close>

text \<open>
  Claim C2. After any sequence of \<^verbatim>\<open>Set\<close>, \<^verbatim>\<open>Get\<close>, \<^verbatim>\<open>Del\<close>, \<^verbatim>\<open>DelOldest\<close> and
  \<^verbatim>\<open>Len\<close> calls on a new store, \<open>usedBytes\<close> is the sum, over the keys in the index, of
  \<open>calcLen\<close> of the value of the entry the index holds for the key; keys do not count.
\<close>

theorem usedBytes_is_indexed_bytes:
  "usedBytes (run calcLen xs (New mb cb)) = indexed_bytes calcLen (run calcLen xs (New mb cb))"
  using accounted_run[OF accounted_New, of calcLen xs mb cb]
  by (simp add: accounted_def indexed_bytes_list_bytes)

theorem usedBytes_is_indexed_bytes_witness:
  "usedBytes (run strLen [OpSet ''a'' (Iface ''xx''), OpSet ''b'' (Iface ''yyy''), OpDel ''a'',
      OpSet ''c'' (Iface ''z'')] (New 0 False)) = 4 \<and>
   indexed_bytes strLen (run strLen [OpSet ''a'' (Iface ''xx''), OpSet ''b'' (Iface ''yyy''), OpDel ''a'',
      OpSet ''c'' (Iface ''z'')] (New 0 False)) = 4"
proof -
  let ?f = "run strLen [OpSet ''a'' (Iface ''xx''), OpSet ''b'' (Iface ''yyy''), OpDel ''a'',
      OpSet ''c'' (Iface ''z'')] (New 0 False)"
  have u: "usedBytes ?f = 4" by (simp add: fifo_eval)
  with usedBytes_is_indexed_bytes[of strLen _ 0 False] show ?thesis by metis
qed

subsection \<open>Capacity\<close>

text \<open>
  Claim C1. With \<open>maxBytes > 0\<close>, \<open>usedBytes \<le> maxBytes\<close> should hold after every \<^verbatim>\<open>Set\<close>
  unless one entry alone is larger than \<open>maxBytes\<close>. The store does not keep this bound.
  \<^verbatim>\<open>Set\<close> tests the capacity with an \<^verbatim>\<open>if\<close> and so evicts one entry at most, and it returns
  before the test when the key is already in the index. With \<open>maxBytes = 5\<close>, values of 1, 1
  and 5 bytes under three keys leave two entries and 6 bytes; so do values of 1 and 1 bytes
  under two keys followed by 5 bytes under the first key.
\<close>

theorem Set_exceeds_maxBytes:
  "maxBytes (run strLen [OpSet ''a'' (Iface ''x''), OpSet ''b'' (Iface ''y''),
               OpSet ''c'' (Iface ''12345'')] (New 5 False)) = 5 \<and>
   usedBytes (run strLen [OpSet ''a'' (Iface ''x''), OpSet ''b'' (Iface ''y''),
               OpSet ''c'' (Iface ''12345'')] (New 5 False)) = 6 \<and>
   fst (Len (run strLen [OpSet ''a'' (Iface ''x''), OpSet ''b'' (Iface ''y''),
               OpSet ''c'' (Iface ''12345'')] (New 5 False))) = 2 \<and>
   strLen (Iface ''x'') <=s 5 \<and> strLen (Iface ''y'') <=s 5 \<and> strLen (Iface ''12345'') <=s 5 \<and>
   \<not> usedBytes (run strLen [OpSet ''a'' (Iface ''x''), OpSet ''b'' (Iface ''y''),
               OpSet ''c'' (Iface ''12345'')] (New 5 False)) <=s 5 \<and>
   usedBytes (run strLen [OpSet ''a'' (Iface ''x''), OpSet ''b'' (Iface ''y''),
               OpSet ''a'' (Iface ''12345'')] (New 5 False)) = 6"
  by (simp add: fifo_eval)

text \<open>
  Claim C3. A new key whose value alone is larger than \<open>maxBytes > 0\<close> is set in a store
  whose accounting is exact, as it is in every store that calls have built from a new one
  (\<open>accounted_reachable\<close>). No operation of \<^verbatim>\<open>Set\<close> can fail, so there is no error. When the
  store was empty, the entry at the front is the new entry itself: it is evicted, the
  callback, if set, receives it, and the store is empty again with no bytes in use. In every
  store whose \<open>usedBytes\<close> is not negative and does not overflow together with the size of
  the new value, the element at the front of the list, the oldest one or else the new one,
  is evicted: after the call it is not in the list, the key of its entry is not in the
  index, and the callback, if set, was invoked with that key and value right after the
  calls made before. Which entries remain besides is left open.
\<close>

theorem Set_oversized:
  assumes "accounted calcLen f" "0 <s maxBytes f" "maxBytes f <s calcLen v" "cache f k = None"
  shows "(ll f = [] \<longrightarrow>
            ll (Set calcLen k v f) = [] \<and> cache (Set calcLen k v f) = cache f \<and>
            usedBytes (Set calcLen k v f) = 0 \<and>
            fst (Get k (Set calcLen k v f)) = GoNil \<and> fst (Len (Set calcLen k v f)) = 0 \<and>
            map (\<lambda>c. (arg_key c, arg_value c)) (calls (Set calcLen k v f)) =
              map (\<lambda>c. (arg_key c, arg_value c)) (calls f) @ (if onEvicted f then [(k, v)] else [])) \<and>
         (0 <=s usedBytes f \<and> sint (usedBytes f) + sint (calcLen v) < 2 ^ 63 \<longrightarrow>
            hd (ll f @ [nextElem f]) \<notin> set (ll (Set calcLen k v f)) \<and>
            elems (Set calcLen k v f) (hd (ll f @ [nextElem f])) =
              (if ll f = [] then \<lparr>key = k, val = v\<rparr> else elems f (hd (ll f))) \<and>
            cache (Set calcLen k v f) (key (elems (Set calcLen k v f) (hd (ll f @ [nextElem f])))) = None \<and>
            (onEvicted f \<longrightarrow>
               length (calls f) < length (calls (Set calcLen k v f)) \<and>
               take (length (calls f)) (calls (Set calcLen k v f)) = calls f \<and>
               removed (calls (Set calcLen k v f) ! length (calls f)) = hd (ll f @ [nextElem f]) \<and>
               arg_key (calls (Set calcLen k v f) ! length (calls f)) =
                 key (elems (Set calcLen k v f) (hd (ll f @ [nextElem f]))) \<and>
               arg_value (calls (Set calcLen k v f) ! length (calls f)) =
                 val (elems (Set calcLen k v f) (hd (ll f @ [nextElem f])))))"
proof (intro conjI impI)
  assume e: "ll f = []"
  from assms(1) have c: "consistent f" and u: "usedBytes f = list_bytes calcLen f"
    by (simp_all add: accounted_def)
  from u e have u0: "usedBytes f = 0" by (simp add: list_bytes_def)
  have S: "Set calcLen k v f = removeElement calcLen (Some (nextElem f)) (pushed calcLen k v f)"
    using Set_new_evicts[of f k calcLen v] assms(2,3,4) u0 e by simp
  show "ll (Set calcLen k v f) = []"
    by (simp add: S removeElement_fields pushed_fields e Remove_def)
  show ck: "cache (Set calcLen k v f) = cache f"
    using assms(4) by (simp add: S removeElement_fields pushed_fields fun_eq_iff)
  show "usedBytes (Set calcLen k v f) = 0"
    by (simp add: S removeElement_fields pushed_fields u0)
  show "fst (Get k (Set calcLen k v f)) = GoNil"
    by (simp add: Get_def ck assms(4))
  show "fst (Len (Set calcLen k v f)) = 0"
    by (simp add: Len_def S removeElement_fields pushed_fields e Remove_def)
  show "map (\<lambda>c. (arg_key c, arg_value c)) (calls (Set calcLen k v f)) =
        map (\<lambda>c. (arg_key c, arg_value c)) (calls f) @ (if onEvicted f then [(k, v)] else [])"
    by (simp add: S removeElement_calls pushed_fields)
next
  assume h: "0 <=s usedBytes f \<and> sint (usedBytes f) + sint (calcLen v) < 2 ^ 63"
  define hd_e where "hd_e = hd (ll f @ [nextElem f])"
  define p where "p = pushed calcLen k v f"
  from assms(1) have c: "consistent f" by (simp add: accounted_def)
  have cp: "consistent p" unfolding p_def by (rule consistent_pushed[OF c assms(4)])
  then have dp: "distinct (ll p)" by (simp add: consistent_def)
  have lp: "ll p = ll f @ [nextElem f]" by (simp add: p_def pushed_fields)
  have mp: "hd_e \<in> set (ll p)" unfolding lp hd_e_def by (rule hd_in_set) simp
  have pos: "0 \<le> sint (calcLen v)" "0 \<le> sint (maxBytes f)"
    using assms(2,3) by (simp_all add: word_sless_alt)
  have "sint (usedBytes f + calcLen v) = sint (usedBytes f) + sint (calcLen v)"
    using h pos by (intro sint_add_no_overflow) (simp_all add: word_sle_eq)
  then have gt: "maxBytes f <s usedBytes f + calcLen v"
    using h assms(3) by (simp add: word_sless_alt word_sle_eq)
  have S: "Set calcLen k v f = removeElement calcLen (Some hd_e) p"
    unfolding hd_e_def p_def
    using Set_new_evicts[of f k calcLen v] assms(4) assms(2) gt by simp
  have el: "elems (Set calcLen k v f) = elems p" by (simp add: S removeElement_fields)
  show "hd_e \<notin> set (ll (Set calcLen k v f))"
    using dp mp by (simp add: S removeElement_fields Remove_def)
  show "elems (Set calcLen k v f) hd_e =
        (if ll f = [] then \<lparr>key = k, val = v\<rparr> else elems f (hd (ll f)))"
  proof (cases "ll f = []")
    case True
    then show ?thesis by (simp add: el p_def pushed_fields hd_e_def)
  next
    case False
    then have "hd_e = hd (ll f)" "hd (ll f) \<in> set (ll f)" by (simp_all add: hd_e_def)
    moreover from this c have "hd (ll f) \<noteq> nextElem f" unfolding consistent_def by auto
    ultimately show ?thesis using False by (simp add: el p_def pushed_fields)
  qed
  show "cache (Set calcLen k v f) (key (elems (Set calcLen k v f) hd_e)) = None"
    unfolding el by (simp add: S removeElement_fields)
  {
    assume cb: "onEvicted f"
    then have "onEvicted p" by (simp add: p_def pushed_fields)
    then obtain c where cs: "calls (Set calcLen k v f) = calls f @ [c]"
      and c: "removed c = hd_e" "arg_key c = key (elems p hd_e)" "arg_value c = val (elems p hd_e)"
      by (simp add: S removeElement_calls p_def pushed_fields)
    show "length (calls f) < length (calls (Set calcLen k v f))" by (simp add: cs)
    show "take (length (calls f)) (calls (Set calcLen k v f)) = calls f" by (simp add: cs)
    show "removed (calls (Set calcLen k v f) ! length (calls f)) = hd_e" by (simp add: cs c)
    show "arg_key (calls (Set calcLen k v f) ! length (calls f)) =
          key (elems (Set calcLen k v f) hd_e)" by (simp add: cs c el)
    show "arg_value (calls (Set calcLen k v f) ! length (calls f)) =
          val (elems (Set calcLen k v f) hd_e)" by (simp add: cs c el)
  }
qed

theorem Set_oversized_witness:
  "accounted strLen (New 5 True) \<and>
   0 <s maxBytes (New 5 True :: string fifo) \<and>
   maxBytes (New 5 True :: string fifo) <s strLen (Iface ''123456'') \<and>
   cache (New 5 True :: string fifo) ''a'' = None \<and>
   ll (New 5 True :: string fifo) = [] \<and>
   ll (Set strLen ''a'' (Iface ''123456'') (New 5 True)) = [] \<and>
   usedBytes (Set strLen ''a'' (Iface ''123456'') (New 5 True)) = 0 \<and>
   map (\<lambda>c. (arg_key c, arg_value c)) (calls (Set strLen ''a'' (Iface ''123456'') (New 5 True))) =
     [(''a'', Iface ''123456'')] \<and>
   accounted strLen (Set strLen ''c'' (Iface ''z'') (Set strLen ''b'' (Iface ''y'') (New 5 True))) \<and>
   cache (Set strLen ''c'' (Iface ''z'') (Set strLen ''b'' (Iface ''y'') (New 5 True))) ''a'' = None \<and>
   ll (Set strLen ''c'' (Iface ''z'') (Set strLen ''b'' (Iface ''y'') (New 5 True))) = [0, 1] \<and>
   0 <=s usedBytes (Set strLen ''c'' (Iface ''z'') (Set strLen ''b'' (Iface ''y'') (New 5 True))) \<and>
   sint (usedBytes (Set strLen ''c'' (Iface ''z'') (Set strLen ''b'' (Iface ''y'') (New 5 True)))) +
     sint (strLen (Iface ''123456'')) < 2 ^ 63 \<and>
   0 \<notin> set (ll (Set strLen ''a'' (Iface ''123456'')
     (Set strLen ''c'' (Iface ''z'') (Set strLen ''b'' (Iface ''y'') (New 5 True))))) \<and>
   cache (Set strLen ''a'' (Iface ''123456'')
     (Set strLen ''c'' (Iface ''z'') (Set strLen ''b'' (Iface ''y'') (New 5 True)))) ''b'' = None \<and>
   arg_key (calls (Set strLen ''a'' (Iface ''123456'')
     (Set strLen ''c'' (Iface ''z'') (Set strLen ''b'' (Iface ''y'') (New 5 True)))) ! 0) = ''b'' \<and>
   arg_value (calls (Set strLen ''a'' (Iface ''123456'')
     (Set strLen ''c'' (Iface ''z'') (Set strLen ''b'' (Iface ''y'') (New 5 True)))) ! 0) = Iface ''y''"
proof -
  let ?n = "New 5 True :: string fifo"
  let ?g = "Set strLen ''c'' (Iface ''z'') (Set strLen ''b'' (Iface ''y'') ?n)"
  let ?v = "Iface ''123456''"
  have g: "?g = \<lparr>maxBytes = 5, onEvicted = True, usedBytes = 2, ll = [0, 1],
      cache = [''b'' \<mapsto> 0, ''c'' \<mapsto> 1],
      elems = (\<lambda>_. \<lparr>key = [], val = GoNil\<rparr>)
        (0 := \<lparr>key = ''b'', val = Iface ''y''\<rparr>, 1 := \<lparr>key = ''c'', val = Iface ''z''\<rparr>),
      nextElem = 2, calls = []\<rparr>"
    by (simp add: fifo_eval)
  have n1: "accounted strLen ?n" by (simp add: accounted_def consistent_def list_bytes_def New_def)
  have n2: "0 <s maxBytes ?n" by (simp add: New_def word_sless_alt)
  have n3: "maxBytes ?n <s strLen ?v" by (simp add: New_def word_sless_alt)
  have n4: "cache ?n ''a'' = None" by (simp add: New_def)
  have n5: "ll ?n = []" "onEvicted ?n" "calls ?n = []" by (simp_all add: New_def)
  have g1: "accounted strLen ?g"
    unfolding g by (simp add: accounted_def consistent_def list_bytes_def)
  have g2: "0 <s maxBytes ?g" unfolding g by (simp add: word_sless_alt)
  have g3: "maxBytes ?g <s strLen ?v" unfolding g by (simp add: word_sless_alt)
  have g4: "cache ?g ''a'' = None" unfolding g by simp
  have g5: "0 <=s usedBytes ?g" "sint (usedBytes ?g) + sint (strLen ?v) < 2 ^ 63"
    unfolding g by (simp_all add: word_sle_eq)
  have g6: "ll ?g = [0, 1]" "nextElem ?g = 2" "onEvicted ?g" "calls ?g = []"
    "elems ?g 0 = \<lparr>key = ''b'', val = Iface ''y''\<rparr>"
    unfolding g by simp_all
  from Set_oversized[OF n1 n2 n3 n4] n5
  have a: "ll (Set strLen ''a'' ?v ?n) = []" "usedBytes (Set strLen ''a'' ?v ?n) = 0"
    "map (\<lambda>c. (arg_key c, arg_value c)) (calls (Set strLen ''a'' ?v ?n)) = [(''a'', ?v)]"
    by simp_all
  let ?s = "Set strLen ''a'' ?v ?g"
  have hd0: "hd (ll ?g @ [nextElem ?g]) = 0" by (simp add: g6)
  from Set_oversized[OF g1 g2 g3 g4] g5
  have t: "hd (ll ?g @ [nextElem ?g]) \<notin> set (ll ?s)"
    "elems ?s (hd (ll ?g @ [nextElem ?g])) =
       (if ll ?g = [] then \<lparr>key = ''a'', val = ?v\<rparr> else elems ?g (hd (ll ?g)))"
    "cache ?s (key (elems ?s (hd (ll ?g @ [nextElem ?g])))) = None"
    "onEvicted ?g \<longrightarrow>
       arg_key (calls ?s ! length (calls ?g)) = key (elems ?s (hd (ll ?g @ [nextElem ?g]))) \<and>
       arg_value (calls ?s ! length (calls ?g)) = val (elems ?s (hd (ll ?g @ [nextElem ?g])))"
    by blast+
  have e0: "elems ?s 0 = \<lparr>key = ''b'', val = Iface ''y''\<rparr>"
    using t(2) unfolding hd0 by (simp add: g6)
  have b: "0 \<notin> set (ll ?s)" "cache ?s ''b'' = None"
    "arg_key (calls ?s ! 0) = ''b''" "arg_value (calls ?s ! 0) = Iface ''y''"
    using t(1,3,4) g6(3) unfolding hd0 e0 g6(4) by simp_all
  show ?thesis
    using n1 n2 n3 n4 n5(1) a g1 g4 g6(1) g5 b by blast
qed

text \<open>
  In an empty store the oversized entry does not remain: no entry does.
\<close>

theorem Set_oversized_counterexample:
  "0 <s maxBytes (New 5 False :: string fifo) \<and>
   maxBytes (New 5 False :: string fifo) <s strLen (Iface ''123456'') \<and>
   cache (New 5 False :: string fifo) ''a'' = None \<and>
   fst (Len (Set strLen ''a'' (Iface ''123456'') (New 5 False))) = 0 \<and>
   usedBytes (Set strLen ''a'' (Iface ''123456'') (New 5 False)) = 0"
  by (simp add: fifo_eval)

subsection \<open>Setting a key that is present\<close>

text \<open>
  Claim C4. Every store that calls have built from a new one is consistent
  (\<open>consistent_reachable\<close>). When the key is in the index of a consistent store,
  \<^verbatim>\<open>Set\<close> writes the value into the entry of the element the index holds for the key and
  touches no other entry, changes \<open>usedBytes\<close> by the size of the new value minus the size of the old one, moves the
  element to the back of the list, the other elements keeping their order, and leaves
  \<^verbatim>\<open>Len\<close> as it was.
\<close>

theorem Set_existing_key:
  assumes "consistent f" "cache f k = Some e"
  shows "elems (Set calcLen k v f) e = \<lparr>key = k, val = v\<rparr> \<and>
         cache (Set calcLen k v f) k = Some e \<and>
         fst (Get k (Set calcLen k v f)) = v \<and>
         (\<forall>a. a \<noteq> e \<longrightarrow> elems (Set calcLen k v f) a = elems f a) \<and>
         usedBytes (Set calcLen k v f) = usedBytes f + (calcLen v - calcLen (val (elems f e))) \<and>
         ll (Set calcLen k v f) = remove1 e (ll f) @ [e] \<and>
         fst (Len (Set calcLen k v f)) = fst (Len f)"
proof -
  note c = consistent_cacheD[OF assms]
  have d: "distinct (ll f)" using assms(1) by (simp add: consistent_def)
  have "elems f e = \<lparr>key = k, val = val (elems f e)\<rparr>" using c(2) by (cases "elems f e") simp
  then have 1: "elems (Set calcLen k v f) e = \<lparr>key = k, val = v\<rparr>"
    by (simp add: Set_update_fields[OF assms(2)]) (metis entry.update_convs(2))
  have 2: "cache (Set calcLen k v f) k = Some e"
    by (simp add: Set_update_fields[OF assms(2)] assms(2))
  have 3: "fst (Get k (Set calcLen k v f)) = v"
    using 1 2 by (simp add: Get_def)
  have 4: "\<forall>a. a \<noteq> e \<longrightarrow> elems (Set calcLen k v f) a = elems f a"
    by (simp add: Set_update_fields[OF assms(2)])
  have 5: "usedBytes (Set calcLen k v f) = usedBytes f + (calcLen v - calcLen (val (elems f e)))"
    by (simp add: Set_update_fields[OF assms(2)])
  have 6: "ll (Set calcLen k v f) = remove1 e (ll f) @ [e]"
    by (simp add: Set_update_fields[OF assms(2)] MoveToBack_eq[OF d c(1)])
  have 7: "fst (Len (Set calcLen k v f)) = fst (Len f)"
    by (simp add: Len_def Set_update_fields[OF assms(2)])
  show ?thesis using 1 2 3 4 5 6 7 by blast
qed

theorem Set_existing_key_witness:
  "consistent (run strLen [OpSet ''a'' (Iface ''x''), OpSet ''b'' (Iface ''y'')] (New 0 False)) \<and>
   cache (run strLen [OpSet ''a'' (Iface ''x''), OpSet ''b'' (Iface ''y'')] (New 0 False)) ''a'' = Some 0 \<and>
   ll (run strLen [OpSet ''a'' (Iface ''x''), OpSet ''b'' (Iface ''y'')] (New 0 False)) = [0, 1] \<and>
   ll (run strLen [OpSet ''a'' (Iface ''x''), OpSet ''b'' (Iface ''y''), OpSet ''a'' (Iface ''zzz'')] (New 0 False)) = [1, 0] \<and>
   usedBytes (run strLen [OpSet ''a'' (Iface ''x''), OpSet ''b'' (Iface ''y'')] (New 0 False)) = 2 \<and>
   usedBytes (run strLen [OpSet ''a'' (Iface ''x''), OpSet ''b'' (Iface ''y''), OpSet ''a'' (Iface ''zzz'')] (New 0 False)) = 4 \<and>
   fst (Get ''a'' (run strLen [OpSet ''a'' (Iface ''x''), OpSet ''b'' (Iface ''y''), OpSet ''a'' (Iface ''zzz'')] (New 0 False))) = Iface ''zzz'' \<and>
   fst (Len (run strLen [OpSet ''a'' (Iface ''x''), OpSet ''b'' (Iface ''y''), OpSet ''a'' (Iface ''zzz'')] (New 0 False))) = 2"
proof -
  let ?f = "run strLen [OpSet ''a'' (Iface ''x''), OpSet ''b'' (Iface ''y'')] (New 0 False)"
  have f: "?f = \<lparr>maxBytes = 0, onEvicted = False, usedBytes = 2, ll = [0, 1],
      cache = [''a'' \<mapsto> 0, ''b'' \<mapsto> 1],
      elems = (\<lambda>_. \<lparr>key = [], val = GoNil\<rparr>)
        (0 := \<lparr>key = ''a'', val = Iface ''x''\<rparr>, 1 := \<lparr>key = ''b'', val = Iface ''y''\<rparr>),
      nextElem = 2, calls = []\<rparr>"
    by (simp add: fifo_eval)
  have c: "consistent ?f"
    unfolding f by (simp add: consistent_def)
  have a: "cache ?f ''a'' = Some 0"
    unfolding f by simp
  have r: "run strLen [OpSet ''a'' (Iface ''x''), OpSet ''b'' (Iface ''y''), OpSet ''a'' (Iface ''zzz'')] (New 0 False)
         = Set strLen ''a'' (Iface ''zzz'') ?f" by simp
  have l: "ll ?f = [0, 1]" "usedBytes ?f = 2" "val (elems ?f 0) = Iface ''x''" "fst (Len ?f) = 2"
    unfolding f by (simp_all add: Len_def)
  show ?thesis
    unfolding r
    using c a l Set_existing_key[OF c a, of strLen "Iface ''zzz''"]
    by simp
qed

text \<open>
  Claim C10. When the key is in the index, \<^verbatim>\<open>Set\<close> invokes no callback and removes no
  entry: the history of calls and the index are unchanged, and the list holds the same
  elements with the same keys. Nothing is assumed about the sizes, so this also holds when
  the new value takes \<open>usedBytes\<close> above \<open>maxBytes\<close>.
\<close>

theorem Set_update_no_eviction:
  assumes "cache f k = Some e"
  shows "calls (Set calcLen k v f) = calls f \<and>
         cache (Set calcLen k v f) = cache f \<and>
         set (ll (Set calcLen k v f)) = set (ll f) \<and>
         length (ll (Set calcLen k v f)) = length (ll f) \<and>
         (\<forall>a. key (elems (Set calcLen k v f) a) = key (elems f a))"
  by (simp add: Set_update_fields[OF assms])

theorem Set_update_no_eviction_witness:
  "cache (run strLen [OpSet ''a'' (Iface ''x''), OpSet ''b'' (Iface ''y'')] (New 5 True)) ''a'' = Some 0 \<and>
   0 <s maxBytes (run strLen [OpSet ''a'' (Iface ''x''), OpSet ''b'' (Iface ''y''), OpSet ''a'' (Iface ''12345'')] (New 5 True)) \<and>
   maxBytes (run strLen [OpSet ''a'' (Iface ''x''), OpSet ''b'' (Iface ''y''), OpSet ''a'' (Iface ''12345'')] (New 5 True))
     <s usedBytes (run strLen [OpSet ''a'' (Iface ''x''), OpSet ''b'' (Iface ''y''), OpSet ''a'' (Iface ''12345'')] (New 5 True)) \<and>
   calls (run strLen [OpSet ''a'' (Iface ''x''), OpSet ''b'' (Iface ''y''), OpSet ''a'' (Iface ''12345'')] (New 5 True)) = [] \<and>
   length (ll (run strLen [OpSet ''a'' (Iface ''x''), OpSet ''b'' (Iface ''y''), OpSet ''a'' (Iface ''12345'')] (New 5 True))) = 2"
proof -
  let ?f = "run strLen [OpSet ''a'' (Iface ''x''), OpSet ''b'' (Iface ''y'')] (New 5 True)"
  have a: "cache ?f ''a'' = Some 0" by (simp add: fifo_eval)
  have c: "calls ?f = []" "length (ll ?f) = 2" by (simp_all add: fifo_eval)
  have r: "run strLen [OpSet ''a'' (Iface ''x''), OpSet ''b'' (Iface ''y''), OpSet ''a'' (Iface ''12345'')] (New 5 True)
         = Set strLen ''a'' (Iface ''12345'') ?f" by simp
  have u: "usedBytes (Set strLen ''a'' (Iface ''12345'') ?f) = 6" "maxBytes (Set strLen ''a'' (Iface ''12345'') ?f) = 5"
    by (simp_all add: fifo_eval)
  show ?thesis
    unfolding r
    using a c u Set_update_no_eviction[OF a, of strLen "Iface ''12345''"]
    by (simp add: word_sless_alt)
qed

subsection \<open>The callback\<close>



subsection \<open>Reading\<close>

text \<open>
  Claim C7. In every store, \<^verbatim>\<open>Get\<close> returns nil for a key that is not in the index and
  the value of the entry for a key that is. The result for a key that is present differs
  from the result for a key that is absent exactly when the stored value is not nil.
\<close>

theorem Get_result:
  "(cache f k = None \<longrightarrow> fst (Get k f) = GoNil) \<and>
   (cache f k = Some e \<longrightarrow>
      fst (Get k f) = val (elems f e) \<and>
      (\<forall>k'. cache f k' = None \<longrightarrow>
         (fst (Get k f) \<noteq> fst (Get k' f)) = (val (elems f e) \<noteq> GoNil)))"
  by (simp add: Get_def)

theorem Get_result_witness:
  "cache (New 0 False :: string fifo) ''b'' = None \<and>
   fst (Get ''b'' (New 0 False :: string fifo)) = GoNil \<and>
   cache (Set strLen ''a'' (Iface ''x'') (New 0 False)) ''a'' = Some 0 \<and>
   cache (Set strLen ''a'' (Iface ''x'') (New 0 False)) ''b'' = None \<and>
   fst (Get ''a'' (Set strLen ''a'' (Iface ''x'') (New 0 False))) = Iface ''x'' \<and>
   fst (Get ''b'' (Set strLen ''a'' (Iface ''x'') (New 0 False))) = GoNil \<and>
   fst (Get ''a'' (Set strLen ''a'' (Iface ''x'') (New 0 False))) \<noteq>
   fst (Get ''b'' (Set strLen ''a'' (Iface ''x'') (New 0 False)))"
proof -
  let ?n = "New 0 False :: string fifo"
  let ?f = "Set strLen ''a'' (Iface ''x'') ?n"
  have n: "cache ?n ''b'' = None" by (simp add: New_def)
  have a: "cache ?f ''a'' = Some 0" and b: "cache ?f ''b'' = None"
    and v: "val (elems ?f 0) = Iface ''x''"
    by (simp_all add: fifo_eval)
  from Get_result[of ?n "''b''"] n have 1: "fst (Get ''b'' ?n) = GoNil" by simp
  from Get_result[of ?f "''b''"] b have 2: "fst (Get ''b'' ?f) = GoNil" by simp
  from Get_result[of ?f "''a''" 0] a
  have g: "fst (Get ''a'' ?f) = val (elems ?f 0)"
    "cache ?f ''b'' = None \<longrightarrow>
       (fst (Get ''a'' ?f) \<noteq> fst (Get ''b'' ?f)) = (val (elems ?f 0) \<noteq> GoNil)"
    by blast+
  have 3: "fst (Get ''a'' ?f) = Iface ''x''" "fst (Get ''a'' ?f) \<noteq> fst (Get ''b'' ?f)"
    using g b unfolding v by simp_all
  show ?thesis using n 1 a b 2 3 by blast
qed

text \<open>
  After nil is set under a key, \<^verbatim>\<open>Get\<close> of that key and \<^verbatim>\<open>Get\<close> of a key that was never set
  return the same; by \<open>Get_stored_nil\<close> this is so whatever size \<open>calcLen\<close> gives to nil.
\<close>

theorem Get_nil_counterexample:
  "cache (Set strLen ''a'' GoNil (New 0 False)) ''a'' \<noteq> None \<and>
   cache (Set strLen ''a'' GoNil (New 0 False)) ''b'' = None \<and>
   fst (Get ''a'' (Set strLen ''a'' GoNil (New 0 False))) =
   fst (Get ''b'' (Set strLen ''a'' GoNil (New 0 False)))"
  by (simp add: fifo_eval)

text \<open>
  Claim C8. \<^verbatim>\<open>Get\<close> leaves the whole store as it was, whether the key is present or not: the
  list, the index, \<open>usedBytes\<close> and \<^verbatim>\<open>Len\<close> are the same after the call as before.
\<close>

theorem Get_leaves_store:
  "snd (Get k f) = f \<and>
   ll (snd (Get k f)) = ll f \<and> cache (snd (Get k f)) = cache f \<and>
   usedBytes (snd (Get k f)) = usedBytes f \<and>
   fst (Len (snd (Get k f))) = fst (Len f)"
  by (simp add: Get_def split: option.splits)

subsection \<open>Deleting what is not there\<close>

text \<open>
  Claim C9. \<^verbatim>\<open>Del\<close> of a key that is not in the index and \<^verbatim>\<open>DelOldest\<close> on an empty list
  return the store as it was: the list, the index, \<open>usedBytes\<close> and the history of the
  callback are unchanged, and there is no error.
\<close>

theorem Del_absent_DelOldest_empty:
  "(cache f k = None \<longrightarrow> Del calcLen k f = f) \<and> (ll f = [] \<longrightarrow> DelOldest calcLen f = f)"
  by (simp add: Del_def DelOldest_def Front_def)

theorem Del_absent_DelOldest_empty_witness:
  "cache (Set strLen ''b'' (Iface ''x'') (New 5 True)) ''a'' = None \<and>
   Del strLen ''a'' (Set strLen ''b'' (Iface ''x'') (New 5 True)) =
     Set strLen ''b'' (Iface ''x'') (New 5 True) \<and>
   ll (New 5 True :: string fifo) = [] \<and>
   DelOldest strLen (New 5 True) = New 5 True"
proof -
  have a: "cache (Set strLen ''b'' (Iface ''x'') (New 5 True)) ''a'' = None"
    by (simp add: fifo_eval)
  have b: "ll (New 5 True :: string fifo) = []"
    by (simp add: New_def)
  show ?thesis
    using a b
      Del_absent_DelOldest_empty[of "Set strLen ''b'' (Iface ''x'') (New 5 True)" "''a''" strLen]
      Del_absent_DelOldest_empty[of "New 5 True" "''a''" strLen]
    by simp
qed

end
